theory Spec2Isabelle
  imports Complex_Main "HOL-Library.Sublist"
begin

section \<open>Strings\<close>

text \<open>
  A Python \<^verbatim>\<open>str\<close> is a sequence of Unicode code points: \<^verbatim>\<open>len\<close> and indexing count
  code points, and a label such as \<^verbatim>\<open>x\<close> followed by SUBSCRIPT ONE has length 2. It is
  modelled as a list of code points; \<open>lit\<close> embeds an ASCII literal.
\<close>

type_synonym codepoint = nat
type_synonym str = "codepoint list"

definition lit :: "string \<Rightarrow> str" where
  "lit s = map of_char s"

definition ZERO :: codepoint where
  \<comment> \<open>the character \<^verbatim>\<open>'0'\<close>\<close>
  "ZERO = of_char CHR ''0''"

definition ONE :: codepoint where
  \<comment> \<open>the character \<^verbatim>\<open>'1'\<close>\<close>
  "ONE = of_char CHR ''1''"

definition EMPTY_SET :: str where
  \<comment> \<open>the one-character string U+2205 EMPTY SET\<close>
  "EMPTY_SET = [0x2205]"

text \<open>\<^verbatim>\<open>sep.join(parts)\<close>.\<close>

fun join :: "str \<Rightarrow> str list \<Rightarrow> str" where
  "join sep [] = []"
| "join sep [x] = x"
| "join sep (x # y # ys) = x @ sep @ join sep (y # ys)"

section \<open>Binary strings\<close>

text \<open>
  \<^verbatim>\<open>format(i, f'0{n}b')\<close> for an index \<open>i\<close> of \<^verbatim>\<open>range(2 ** n)\<close>, which is never
  negative: the binary digits of \<open>i\<close>, most significant first (\<^verbatim>\<open>"0"\<close> for zero),
  padded on the left with \<^verbatim>\<open>'0'\<close> up to width \<open>n\<close>. A number with more than \<open>n\<close> digits
  is not truncated.
\<close>

definition digit :: "nat \<Rightarrow> codepoint" where
  "digit d = (if d = 0 then ZERO else ONE)"

fun bin_digits :: "nat \<Rightarrow> str" where
  "bin_digits i = (if i < 2 then [digit i] else bin_digits (i div 2) @ [digit (i mod 2)])"

declare bin_digits.simps [simp del]

definition format_0nb :: "nat \<Rightarrow> nat \<Rightarrow> str" where
  "format_0nb n i = (let d = bin_digits i in replicate (n - length d) ZERO @ d)"

text \<open>
  \<^verbatim>\<open>int(s, 2)\<close> on the strings this program hands to it: a non-empty run of the ASCII
  digits \<^verbatim>\<open>0\<close> and \<^verbatim>\<open>1\<close>, read most significant digit first. Every other string gives
  \<open>None\<close>: Python raises \<^verbatim>\<open>ValueError\<close> on most of them, and the further forms it
  accepts (sign, surrounding whitespace, a \<^verbatim>\<open>0b\<close> prefix, underscores, non-ASCII
  digits) are outside this model.
\<close>

definition digit_val :: "codepoint \<Rightarrow> nat option" where
  "digit_val c = (if c = ZERO then Some 0 else if c = ONE then Some 1 else None)"

fun int_base2_from :: "nat \<Rightarrow> str \<Rightarrow> nat option" where
  "int_base2_from acc [] = Some acc"
| "int_base2_from acc (c # cs) =
     (case digit_val c of None \<Rightarrow> None | Some d \<Rightarrow> int_base2_from (2 * acc + d) cs)"

definition int_base2 :: "str \<Rightarrow> nat option" where
  "int_base2 s = (if s = [] then None else int_base2_from 0 s)"

section \<open>The enumerator\<close>

text \<open>
  \<^verbatim>\<open>PowerSetBijectionVisualization.update_power_set\<close> builds the list \<^verbatim>\<open>power_set\<close> of
  tuples \<^verbatim>\<open>(subset, subset_str, binary, i)\<close> and then copies it into the table widget.
  The model is the list; the fields carry the names the source gives them when it
  unpacks the tuple.
\<close>

record subset_record =
  subset_list :: "str list"
  subset_str :: str
  binary :: str
  decimal :: nat

definition power_set_entry :: "str list \<Rightarrow> nat \<Rightarrow> nat \<Rightarrow> subset_record" where
  \<comment> \<open>the body of the loop, for the index \<open>i\<close>\<close>
  "power_set_entry base n i =
     (let b = format_0nb n i;
          subset = map (\<lambda>j. base ! j) (filter (\<lambda>j. b ! j = ONE) [0..<n]);
          s = (if length subset = 0 then EMPTY_SET
               else lit ''{'' @ join (lit '', '') subset @ lit ''}'')
      in \<lparr>subset_list = subset, subset_str = s, binary = b, decimal = i\<rparr>)"

fun power_set_loop :: "str list \<Rightarrow> nat \<Rightarrow> nat list \<Rightarrow> subset_record list \<Rightarrow> subset_record list" where
  "power_set_loop base n [] power_set = power_set"
| "power_set_loop base n (i # rest) power_set =
     power_set_loop base n rest (power_set @ [power_set_entry base n i])"

definition update_power_set :: "str list \<Rightarrow> subset_record list" where
  "update_power_set base =
     (let n = length base in power_set_loop base n [0..<2 ^ n] [])"

section \<open>The placement computer\<close>

text \<open>
  \<^verbatim>\<open>VisualizationWorker.run\<close> computes in numpy's \<^verbatim>\<open>float64\<close>. The arithmetic it uses
  is a parameter of the model: the constant \<^verbatim>\<open>np.pi\<close>, the functions \<^verbatim>\<open>np.sin\<close> and
  \<^verbatim>\<open>np.cos\<close>, the float operations \<^verbatim>\<open>*\<close>, \<^verbatim>\<open>-\<close> and \<^verbatim>\<open>/\<close>, Python's true
  division of two ints, and the conversion of an int operand to a float. Nothing is
  assumed about them, so whatever is proved for every arithmetic holds for the rounded
  one as well.
\<close>

record 'f arith =
  np_pi :: 'f
  np_sin :: "'f \<Rightarrow> 'f"
  np_cos :: "'f \<Rightarrow> 'f"
  fmul :: "'f \<Rightarrow> 'f \<Rightarrow> 'f"
  fsub :: "'f \<Rightarrow> 'f \<Rightarrow> 'f"
  fdiv :: "'f \<Rightarrow> 'f \<Rightarrow> 'f"
  int_truediv :: "int \<Rightarrow> int \<Rightarrow> 'f"
  float_of :: "int \<Rightarrow> 'f"

text \<open>
  One arithmetic to run the model on: exact arithmetic on the reals. It is not the
  arithmetic of the program, whose results are rounded; what holds for \<open>exact\<close> alone says
  nothing about the coordinates the program emits.
\<close>

definition exact :: "real arith" where
  "exact = \<lparr>np_pi = pi, np_sin = sin, np_cos = cos,
            fmul = (\<lambda>a b. a * b), fsub = (\<lambda>a b. a - b), fdiv = (\<lambda>a b. a / b),
            int_truediv = (\<lambda>a b. real_of_int a / real_of_int b),
            float_of = real_of_int\<rparr>"

type_synonym 'f point = "'f \<times> 'f \<times> 'f"

text \<open>The fields that \<^verbatim>\<open>VisualizationWorker.__init__\<close> stores.\<close>

record worker =
  base_set :: "str list"
  current_index :: nat
  show_labels :: bool
  show_connections :: bool

text \<open>The arguments of the signal \<^verbatim>\<open>updated\<close>, in the order of its declaration.\<close>

record 'f updated =
  power_set_positions :: "'f point list"
  binary_positions :: "'f point list"
  n_sent :: nat
  current_index_sent :: nat
  show_labels_sent :: bool
  show_connections_sent :: bool

text \<open>
  The body of the loop of \<^verbatim>\<open>run\<close> after the interruption check, for the index \<open>i\<close>: the
  two points it appends. Python evaluates \<^verbatim>\<open>(i / (2 ** n)) * 2 * np.pi\<close> from the left.
\<close>

definition placement :: "'f arith \<Rightarrow> nat \<Rightarrow> nat \<Rightarrow> 'f point \<times> 'f point" where
  "placement A n i =
     (let theta = fmul A (fmul A (int_truediv A (int i) (2 ^ n)) (float_of A 2)) (np_pi A);
          phi = fdiv A (np_pi A) (float_of A 3);
          x = fmul A (np_sin A phi) (np_cos A theta);
          y = fmul A (np_sin A phi) (np_sin A theta);
          z = np_cos A phi;
          phi2 = fsub A (np_pi A) phi;
          x2 = fmul A (np_sin A phi2) (np_cos A theta);
          y2 = fmul A (np_sin A phi2) (np_sin A theta);
          z2 = np_cos A phi2
      in ((x, y, z), (x2, y2, z2)))"

text \<open>
  \<^verbatim>\<open>isInterruptionRequested()\<close> reads a flag that another thread may set at any moment.
  The worker sees it only through its calls, so the model takes their answers:
  \<open>interrupted k\<close> is what call number \<open>k\<close> returns, counting from 0. The loop makes one
  call per index, so iteration \<open>i\<close> makes call \<open>i\<close>, and the call after the loop is number
  \<open>2 ^ n\<close>. The result \<open>None\<close> is a return without emitting the signal; \<open>Some e\<close> is the
  emission of \<open>e\<close>. No operation of \<^verbatim>\<open>run\<close> raises: the divisors \<open>2 ** n\<close> and \<open>3\<close> are
  not zero.
\<close>

fun run_loop :: "'f arith \<Rightarrow> (nat \<Rightarrow> bool) \<Rightarrow> nat \<Rightarrow> nat list \<Rightarrow>
    'f point list \<Rightarrow> 'f point list \<Rightarrow> ('f point list \<times> 'f point list) option" where
  "run_loop A interrupted n [] pps bps = Some (pps, bps)"
| "run_loop A interrupted n (i # rest) pps bps =
     (if interrupted i then None
      else run_loop A interrupted n rest
             (pps @ [fst (placement A n i)]) (bps @ [snd (placement A n i)]))"

definition run :: "'f arith \<Rightarrow> (nat \<Rightarrow> bool) \<Rightarrow> worker \<Rightarrow> 'f updated option" where
  "run A interrupted w =
     (let n = length (base_set w) in
      case run_loop A interrupted n [0..<2 ^ n] [] [] of
        None \<Rightarrow> None
      | Some (pps, bps) \<Rightarrow>
          if interrupted (2 ^ n) then None
          else Some \<lparr>power_set_positions = pps, binary_positions = bps, n_sent = n,
                      current_index_sent = current_index w,
                      show_labels_sent = show_labels w,
                      show_connections_sent = show_connections w\<rparr>)"

section \<open>Arithmetics that round\<close>

text \<open>
  What the model assumes of numpy's arithmetic where a claim speaks of approximate
  values: \<open>rounds_within \<epsilon> A\<close> says that \<^verbatim>\<open>np.pi\<close> and every sine and cosine of \<open>A\<close> are
  within \<open>\<epsilon>\<close> of the exact value, that products and differences of operands up to 8 and
  quotients of a dividend up to 8 by a divisor of at least 1 are within \<open>\<epsilon>\<close> of the exact
  result, and that the integer 3 is converted exactly. The operands that
  \<^verbatim>\<open>run\<close> feeds to these operations lie in these ranges. Values are real numbers here, a
  \<^verbatim>\<open>float64\<close> being one. Rounding to the nearest \<^verbatim>\<open>float64\<close> keeps \<^verbatim>\<open>*\<close>, \<^verbatim>\<open>-\<close> and
  \<^verbatim>\<open>/\<close> within \<open>1 / 2 ^ 48\<close> on these ranges; the repository states nothing about the
  accuracy of \<^verbatim>\<open>np.sin\<close> and \<^verbatim>\<open>np.cos\<close>, so the bounds are hypotheses of the theorems
  that use them.
\<close>

definition rounds_within :: "real \<Rightarrow> real arith \<Rightarrow> bool" where
  "rounds_within eps A \<longleftrightarrow>
     0 \<le> eps \<and> eps \<le> 1
     \<and> \<bar>np_pi A - pi\<bar> \<le> eps
     \<and> float_of A 3 = 3
     \<and> (\<forall>v. \<bar>np_sin A v - sin v\<bar> \<le> eps)
     \<and> (\<forall>v. \<bar>np_cos A v - cos v\<bar> \<le> eps)
     \<and> (\<forall>a b. \<bar>a\<bar> \<le> 8 \<longrightarrow> \<bar>b\<bar> \<le> 8 \<longrightarrow> \<bar>fmul A a b - a * b\<bar> \<le> eps)
     \<and> (\<forall>a b. \<bar>a\<bar> \<le> 8 \<longrightarrow> \<bar>b\<bar> \<le> 8 \<longrightarrow> \<bar>fsub A a b - (a - b)\<bar> \<le> eps)
     \<and> (\<forall>a b. \<bar>a\<bar> \<le> 8 \<longrightarrow> 1 \<le> \<bar>b\<bar> \<longrightarrow> \<bar>fdiv A a b - a / b\<bar> \<le> eps)"

text \<open>
  An arithmetic that rounds every result to the nearest multiple of \<open>1 / 2 ^ 52\<close>. It is not
  \<^verbatim>\<open>float64\<close>, whose grid depends on the magnitude; it is an arithmetic in which no
  operation is exact, to run the model on.
\<close>

definition rnd :: "real \<Rightarrow> real" where
  "rnd v = real_of_int (round (v * 2 ^ 52)) / 2 ^ 52"

definition rounded :: "real arith" where
  "rounded = \<lparr>np_pi = rnd pi, np_sin = (\<lambda>v. rnd (sin v)), np_cos = (\<lambda>v. rnd (cos v)),
              fmul = (\<lambda>a b. rnd (a * b)), fsub = (\<lambda>a b. rnd (a - b)),
              fdiv = (\<lambda>a b. rnd (a / b)),
              int_truediv = (\<lambda>a b. rnd (real_of_int a / real_of_int b)),
              float_of = (\<lambda>a. rnd (real_of_int a))\<rparr>"

text \<open>
  The value of \<^verbatim>\<open>np.pi\<close>: the \<^verbatim>\<open>float64\<close> nearest to \<open>\<pi>\<close>, \<^verbatim>\<open>0x400921FB54442D18\<close>, which
  is \<open>884279719003555 / 2 ^ 48\<close>; and the arithmetic that has this constant and is exact
  otherwise.
\<close>

definition float64_pi :: real where
  "float64_pi = 884279719003555 / 281474976710656"

definition exact_with_float64_pi :: "real arith" where
  "exact_with_float64_pi = exact\<lparr>np_pi := float64_pi\<rparr>"

section \<open>Starting and superseding a computation\<close>

text \<open>
  \<^verbatim>\<open>PowerSetBijectionVisualization.update_3d_visualization\<close> runs on the interactive
  thread and uses Qt's \<^verbatim>\<open>QThread\<close>, which is not part of the repository. The thread
  object is modelled by what Qt documents of it:
  \<^item> \<^verbatim>\<open>start()\<close> makes \<^verbatim>\<open>isRunning()\<close> true and executes \<^verbatim>\<open>run()\<close> on a new thread;
  \<^item> \<^verbatim>\<open>isInterruptionRequested()\<close> reads a flag that only \<^verbatim>\<open>requestInterruption()\<close>
    sets; the source never calls \<^verbatim>\<open>requestInterruption()\<close>;
  \<^item> \<^verbatim>\<open>quit()\<close> asks the thread's event loop to exit and does nothing when the thread has
    none, and \<^verbatim>\<open>run()\<close> is overridden here and starts no event loop;
  \<^item> \<^verbatim>\<open>wait()\<close> blocks the caller until \<^verbatim>\<open>run()\<close> has returned;
  \<^item> a signal emitted on the worker thread and connected to a method of the window, which
    lives on the interactive thread, is queued and delivered by the event loop of the
    interactive thread, in the order of emission.
\<close>

datatype py_error = ValueError

record qthread =
  args :: worker
  running :: bool
  interruption_requested :: bool

record 'f window =
  win_base_set :: "str list"
  current_binary :: str
  show_labels_checked :: bool
  show_connections_checked :: bool
  worker_thread :: "qthread option"
  queued :: "'f updated list"
  drawn :: "'f updated list"

definition qthread_quit :: "qthread \<Rightarrow> qthread" where
  "qthread_quit th = th"

text \<open>
  The thread executes \<^verbatim>\<open>run()\<close> to its end: every call of \<^verbatim>\<open>isInterruptionRequested()\<close>
  returns the flag of the thread object, and an emitted signal joins the queue of the
  interactive thread.
\<close>

definition finish :: "'f arith \<Rightarrow> qthread \<Rightarrow> 'f window \<Rightarrow> 'f window" where
  "finish A th s =
     (let q = (case run A (\<lambda>k. interruption_requested th) (args th) of
                 None \<Rightarrow> queued s
               | Some e \<Rightarrow> queued s @ [e])
      in s\<lparr>worker_thread := Some (th\<lparr>running := False\<rparr>), queued := q\<rparr>)"

definition qthread_wait :: "'f arith \<Rightarrow> qthread \<Rightarrow> 'f window \<Rightarrow> 'f window" where
  "qthread_wait A th s = (if running th then finish A th s else s)"

definition update_3d_visualization :: "'f arith \<Rightarrow> 'f window \<Rightarrow> py_error + 'f window" where
  "update_3d_visualization A s =
     (let s1 = (case worker_thread s of
                  None \<Rightarrow> s
                | Some th \<Rightarrow> if running th then qthread_wait A (qthread_quit th) s else s)
      in case (if current_binary s1 = [] then Some 0 else int_base2 (current_binary s1)) of
           None \<Rightarrow> Inl ValueError
         | Some ci \<Rightarrow>
             Inr (s1\<lparr>worker_thread :=
                    Some \<lparr>args = \<lparr>base_set = win_base_set s1, current_index = ci,
                                    show_labels = show_labels_checked s1,
                                    show_connections = show_connections_checked s1\<rparr>,
                          running = True, interruption_requested = False\<rparr>\<rparr>))"

text \<open>
  \<^verbatim>\<open>draw_visualization\<close> is the slot connected to \<^verbatim>\<open>updated\<close>; of the frame it draws,
  the model keeps the arguments it was called with.
\<close>

definition draw_visualization :: "'f updated \<Rightarrow> 'f window \<Rightarrow> 'f window" where
  "draw_visualization e s = s\<lparr>drawn := drawn s @ [e]\<rparr>"

text \<open>
  What can happen to a window, one step at a time: the constructor or a handler calls
  \<^verbatim>\<open>update_3d_visualization\<close>; the user toggles the check box ``Show Labels'', whose
  \<^verbatim>\<open>stateChanged\<close> signal is connected to \<^verbatim>\<open>update_3d_visualization\<close>; the running worker
  reaches the end of \<^verbatim>\<open>run()\<close>; the event loop delivers the oldest queued signal.
\<close>

datatype event = Refresh | Show_labels_toggled | Worker_returns | Deliver

fun step :: "'f arith \<Rightarrow> event \<Rightarrow> 'f window \<Rightarrow> py_error + 'f window" where
  "step A Refresh s = update_3d_visualization A s"
| "step A Show_labels_toggled s =
     update_3d_visualization A (s\<lparr>show_labels_checked := \<not> show_labels_checked s\<rparr>)"
| "step A Worker_returns s =
     (case worker_thread s of
        None \<Rightarrow> Inr s
      | Some th \<Rightarrow> Inr (qthread_wait A th s))"
| "step A Deliver s =
     (case queued s of
        [] \<Rightarrow> Inr s
      | e # rest \<Rightarrow> Inr (draw_visualization e (s\<lparr>queued := rest\<rparr>)))"

fun steps :: "'f arith \<Rightarrow> event list \<Rightarrow> 'f window \<Rightarrow> py_error + 'f window" where
  "steps A [] s = Inr s"
| "steps A (ev # evs) s = (case step A ev s of Inl err \<Rightarrow> Inl err | Inr s' \<Rightarrow> steps A evs s')"

text \<open>The labels and the state that \<^verbatim>\<open>__init__\<close> sets up before its first refresh.\<close>

definition x1 :: str where "x1 = [of_char CHR ''x'', 0x2081]"
definition x2 :: str where "x2 = [of_char CHR ''x'', 0x2082]"
definition x3 :: str where "x3 = [of_char CHR ''x'', 0x2083]"

definition init_window :: "'f window" where
  "init_window = \<lparr>win_base_set = [x1, x2, x3], current_binary = lit ''000'',
                   show_labels_checked = True, show_connections_checked = True,
                   worker_thread = None, queued = [], drawn = []\<rparr>"

section \<open>The enumerator: proofs\<close>

lemma power_set_loop_map:
  "power_set_loop base n is acc = acc @ map (power_set_entry base n) is"
  by (induction "is" arbitrary: acc) simp_all

lemma update_power_set_map:
  "update_power_set base = map (power_set_entry base (length base)) [0..<2 ^ length base]"
  by (simp add: update_power_set_def power_set_loop_map Let_def)

lemma update_power_set_nth:
  "i < 2 ^ length base \<Longrightarrow> update_power_set base ! i = power_set_entry base (length base) i"
  by (simp add: update_power_set_map)

lemma ZERO_neq_ONE: "ZERO \<noteq> ONE"
  by (simp add: ZERO_def ONE_def)

lemma digit_val_digit: "d < 2 \<Longrightarrow> digit_val (digit d) = Some d"
  using ZERO_neq_ONE by (auto simp: digit_val_def digit_def)

lemma bin_digits_small: "i < 2 \<Longrightarrow> bin_digits i = [digit i]"
  by (simp add: bin_digits.simps[of i])

lemma bin_digits_large: "\<not> i < 2 \<Longrightarrow> bin_digits i = bin_digits (i div 2) @ [digit (i mod 2)]"
  by (simp add: bin_digits.simps[of i])

lemma bin_digits_nonempty: "bin_digits i \<noteq> []"
  by (cases "i < 2") (simp_all add: bin_digits_small bin_digits_large)

lemma int_base2_from_snoc:
  "int_base2_from acc (xs @ [c]) =
     (case int_base2_from acc xs of
        None \<Rightarrow> None
      | Some v \<Rightarrow> (case digit_val c of None \<Rightarrow> None | Some d \<Rightarrow> Some (2 * v + d)))"
  by (induction xs arbitrary: acc) (auto split: option.splits)

lemma int_base2_from_bin_digits: "int_base2_from 0 (bin_digits i) = Some i"
proof (induction i rule: bin_digits.induct)
  case (1 i)
  show ?case
  proof (cases "i < 2")
    case True
    then show ?thesis by (simp add: bin_digits_small digit_val_digit)
  next
    case False
    then have "int_base2_from 0 (bin_digits (i div 2)) = Some (i div 2)"
      using 1 by simp
    then show ?thesis
      using False by (simp add: bin_digits_large int_base2_from_snoc digit_val_digit)
  qed
qed

lemma int_base2_from_zeros: "int_base2_from 0 (replicate k ZERO @ s) = int_base2_from 0 s"
  by (induction k) (simp_all add: digit_val_def)

lemma int_base2_format: "int_base2 (format_0nb n i) = Some i"
  by (simp add: int_base2_def format_0nb_def Let_def bin_digits_nonempty
      int_base2_from_zeros int_base2_from_bin_digits)

lemma length_bin_digits: "0 < n \<Longrightarrow> i < 2 ^ n \<Longrightarrow> length (bin_digits i) \<le> n"
proof (induction i arbitrary: n rule: bin_digits.induct)
  case (1 i)
  show ?case
  proof (cases "i < 2")
    case True
    then show ?thesis using "1.prems" by (simp add: bin_digits_small)
  next
    case False
    with "1.prems" have "1 < n"
      by (metis One_nat_def Suc_lessI power_one_right)
    then obtain m where m: "n = Suc m" "0 < m"
      by (cases n) auto
    have "i div 2 < 2 ^ m"
      using "1.prems" m by (simp add: less_mult_imp_div_less)
    then have "length (bin_digits (i div 2)) \<le> m"
      using 1 False m by simp
    then show ?thesis
      using False m by (simp add: bin_digits_large)
  qed
qed

text \<open>
  The binary string is never shorter than \<open>n\<close>, so the reads \<^verbatim>\<open>binary[j]\<close> for \<open>j < n\<close>
  stay in range, as the reads \<^verbatim>\<open>base_set[j]\<close> do.
\<close>

lemma format_0nb_wide_enough: "n \<le> length (format_0nb n i)"
  by (simp add: format_0nb_def Let_def)

lemma length_format: "0 < n \<Longrightarrow> i < 2 ^ n \<Longrightarrow> length (format_0nb n i) = n"
  using length_bin_digits[of n i] by (simp add: format_0nb_def Let_def)

lemma ONE_in_bin_digits: "ONE \<in> set (bin_digits i) \<longleftrightarrow> i \<noteq> 0"
proof (induction i rule: bin_digits.induct)
  case (1 i)
  show ?case
  proof (cases "i < 2")
    case True
    then have "i = 0 \<or> i = 1" by auto
    then show ?thesis
      using ZERO_neq_ONE by (auto simp: digit_def bin_digits_small)
  next
    case False
    then have "ONE \<in> set (bin_digits (i div 2)) \<longleftrightarrow> i div 2 \<noteq> 0"
      using 1 by simp
    moreover have "i div 2 \<noteq> 0" "i \<noteq> 0"
      using False by simp_all
    ultimately show ?thesis
      using False by (simp add: bin_digits_large)
  qed
qed

lemma ONE_in_format: "ONE \<in> set (format_0nb n i) \<longleftrightarrow> i \<noteq> 0"
  using ZERO_neq_ONE by (auto simp: format_0nb_def Let_def ONE_in_bin_digits)

lemma bin_digits_bound: "i < 2 ^ length (bin_digits i)"
proof (induction i rule: bin_digits.induct)
  case (1 i)
  show ?case
  proof (cases "i < 2")
    case True
    then show ?thesis by (simp add: bin_digits_small)
  next
    case False
    then have "i div 2 < 2 ^ length (bin_digits (i div 2))"
      using 1 by simp
    then have "i < 2 * 2 ^ length (bin_digits (i div 2))"
      by linarith
    then show ?thesis
      using False by (simp add: bin_digits_large)
  qed
qed

lemma rev_bin_digits_nth:
  "k < length (bin_digits i) \<Longrightarrow> rev (bin_digits i) ! k = digit (i div 2 ^ k mod 2)"
proof (induction i arbitrary: k rule: bin_digits.induct)
  case (1 i)
  show ?case
  proof (cases "i < 2")
    case True
    then show ?thesis using "1.prems" by (simp add: bin_digits_small)
  next
    case False
    show ?thesis
    proof (cases k)
      case 0
      then show ?thesis using False by (simp add: bin_digits_large)
    next
      case (Suc k')
      then have "k' < length (bin_digits (i div 2))"
        using "1.prems" False by (simp add: bin_digits_large)
      then have "rev (bin_digits (i div 2)) ! k' = digit (i div 2 div 2 ^ k' mod 2)"
        using 1 False by simp
      then show ?thesis
        using False Suc by (simp add: bin_digits_large div_mult2_eq)
    qed
  qed
qed

lemma digit_eq_ONE: "digit d = ONE \<longleftrightarrow> d \<noteq> 0"
  using ZERO_neq_ONE by (simp add: digit_def)

lemma format_nth_bit:
  assumes "0 < n" and "i < 2 ^ n" and "j < n"
  shows "format_0nb n i ! j = ONE \<longleftrightarrow> bit i (n - Suc j)"
proof -
  let ?d = "bin_digits i"
  have L: "length ?d \<le> n"
    using assms(1,2) by (rule length_bin_digits)
  show ?thesis
  proof (cases "j < n - length ?d")
    case True
    then have "format_0nb n i ! j = ZERO"
      by (simp add: format_0nb_def Let_def nth_append)
    moreover have "length ?d \<le> n - Suc j"
      using True by simp
    then have "i < 2 ^ (n - Suc j)"
      using bin_digits_bound[of i]
      by (meson less_le_trans one_le_numeral power_increasing)
    then have "\<not> bit i (n - Suc j)"
      by (simp add: bit_iff_odd)
    ultimately show ?thesis
      using ZERO_neq_ONE by simp
  next
    case False
    let ?k = "n - Suc j"
    have k: "?k < length ?d"
      using False assms(3) L by linarith
    have "format_0nb n i ! j = ?d ! (j - (n - length ?d))"
      using False by (simp add: format_0nb_def Let_def nth_append)
    also have "j - (n - length ?d) = length ?d - Suc ?k"
      using False assms(3) L by linarith
    also have "?d ! (length ?d - Suc ?k) = rev ?d ! ?k"
      using k by (simp add: rev_nth)
    also have "\<dots> = digit (i div 2 ^ ?k mod 2)"
      using k by (rule rev_bin_digits_nth)
    finally show ?thesis
      by (simp add: digit_eq_ONE bit_iff_odd odd_iff_mod_2_eq_one)
  qed
qed

lemma map_nth_filter_nths:
  "map (\<lambda>j. xs ! j) (filter P [0..<length xs]) = nths xs {j. P j}"
proof -
  have "zip xs [0..<length xs] = map (\<lambda>j. (xs ! j, j)) [0..<length xs]"
    by (rule nth_equalityI) simp_all
  then show ?thesis
    unfolding nths_def by (simp add: filter_map comp_def)
qed

lemma entry_binary: "binary (power_set_entry base n i) = format_0nb n i"
  by (simp add: power_set_entry_def Let_def)

lemma entry_decimal: "decimal (power_set_entry base n i) = i"
  by (simp add: power_set_entry_def Let_def)

lemma entry_subset:
  "subset_list (power_set_entry base (length base) i) =
     nths base {j. format_0nb (length base) i ! j = ONE}"
  by (simp add: power_set_entry_def Let_def map_nth_filter_nths)

lemma entry_subset_str:
  "subset_str (power_set_entry base n i) =
     (if subset_list (power_set_entry base n i) = [] then EMPTY_SET
      else lit ''{'' @ join (lit '', '') (subset_list (power_set_entry base n i)) @ lit ''}'')"
  by (simp add: power_set_entry_def Let_def)

lemma entry_subset_empty:
  assumes "i < 2 ^ length base"
  shows "subset_list (power_set_entry base (length base) i) = [] \<longleftrightarrow> i = 0"
proof (cases "length base = 0")
  case True
  then show ?thesis
    using assms by (simp add: power_set_entry_def Let_def)
next
  case False
  then have len: "length (format_0nb (length base) i) = length base"
    using assms by (simp add: length_format)
  have "subset_list (power_set_entry base (length base) i) = [] \<longleftrightarrow>
        (\<forall>j < length base. format_0nb (length base) i ! j \<noteq> ONE)"
    by (auto simp: power_set_entry_def Let_def filter_empty_conv)
  also have "\<dots> \<longleftrightarrow> ONE \<notin> set (format_0nb (length base) i)"
    using len by (metis in_set_conv_nth)
  also have "\<dots> \<longleftrightarrow> i = 0"
    by (simp add: ONE_in_format)
  finally show ?thesis .
qed

lemma scenario_binary: "binary (update_power_set [x1, x2, x3] ! 5) = lit ''101''"
  by code_simp

lemma scenario_subset: "subset_list (update_power_set [x1, x2, x3] ! 5) = [x1, x3]"
  by code_simp

lemma labels_distinct: "distinct [x1, x2, x3]"
  by (simp add: x1_def x2_def x3_def)

text \<open>
  Claim C1. For an index \<open>i\<close> below \<open>2 ^ n\<close>, where \<open>n\<close> is the size of the base set, the
  binary string of record \<open>i\<close>, read as a base-2 integer, is \<open>i\<close>, and so is the decimal
  value the record stores. The bound \<open>1 \<le> n \<le> 6\<close> of the claim is not needed.
\<close>

theorem binary_round_trip:
  assumes "i < 2 ^ length base"
  shows "int_base2 (binary (update_power_set base ! i)) = Some i
       \<and> decimal (update_power_set base ! i) = i"
  using assms by (simp add: update_power_set_nth entry_binary entry_decimal int_base2_format)

theorem binary_round_trip_witness:
  "(5::nat) < 2 ^ length [x1, x2, x3]
   \<and> int_base2 (binary (update_power_set [x1, x2, x3] ! 5)) = Some 5
   \<and> decimal (update_power_set [x1, x2, x3] ! 5) = 5"
  using binary_round_trip[of 5 "[x1, x2, x3]"] by simp

text \<open>
  Claim C2. For a base set of any size \<open>n\<close> the enumerator produces \<open>2 ^ n\<close> records, the
  record at position \<open>i\<close> carrying the index \<open>i\<close>; the binary strings are pairwise distinct,
  and read as base-2 integers they are \<open>0, 1, \<dots>, 2 ^ n - 1\<close> in this order, each value
  once.
\<close>

theorem enumerator_complete:
  "length (update_power_set base) = 2 ^ length base
   \<and> map decimal (update_power_set base) = [0..<2 ^ length base]
   \<and> map (\<lambda>r. int_base2 (binary r)) (update_power_set base) = map Some [0..<2 ^ length base]
   \<and> distinct (map binary (update_power_set base))"
proof -
  have v: "map (\<lambda>r. int_base2 (binary r)) (update_power_set base)
             = map Some [0..<2 ^ length base]"
    by (simp add: update_power_set_map entry_binary int_base2_format comp_def)
  then have "distinct (map int_base2 (map binary (update_power_set base)))"
    by (simp add: comp_def distinct_map)
  then have d: "distinct (map binary (update_power_set base))"
    by (auto simp: distinct_map inj_on_def)
  have m: "map decimal (update_power_set base) = [0..<2 ^ length base]"
    by (simp add: update_power_set_map entry_decimal comp_def)
  show ?thesis
    using v d m by (simp add: update_power_set_map)
qed

text \<open>
  Claim C3. For an index \<open>i\<close> below \<open>2 ^ n\<close> the binary string of record \<open>i\<close> has width
  \<open>n\<close>, and the subset of the record consists of the elements of the base set at the
  positions where the string has the character \<^verbatim>\<open>'1'\<close>, position 0 being the leftmost
  character, listed in base-set order. Character \<open>j\<close> is \<^verbatim>\<open>'1'\<close> exactly if bit
  \<open>n - 1 - j\<close> of the number \<open>i\<close> is set: the string is read most significant bit first.
  When the labels are distinct, as the data model has them, the element at position \<open>j\<close>
  is a member of the subset exactly if character \<open>j\<close> is \<^verbatim>\<open>'1'\<close>.
\<close>

theorem subset_matches_bits:
  assumes "i < 2 ^ length base" and "j < length base"
  shows "length (binary (update_power_set base ! i)) = length base
       \<and> subset_list (update_power_set base ! i)
           = nths base {k. binary (update_power_set base ! i) ! k = ONE}
       \<and> subseq (subset_list (update_power_set base ! i)) base
       \<and> (binary (update_power_set base ! i) ! j = ONE \<longleftrightarrow> bit i (length base - Suc j))
       \<and> (distinct base \<longrightarrow>
            (base ! j \<in> set (subset_list (update_power_set base ! i))
               \<longleftrightarrow> binary (update_power_set base ! i) ! j = ONE))"
proof -
  let ?r = "update_power_set base ! i"
  have r: "?r = power_set_entry base (length base) i"
    using assms(1) by (rule update_power_set_nth)
  have n: "0 < length base"
    using assms(2) by (cases base) simp_all
  then have "length (format_0nb (length base) i) = length base"
    using assms(1) by (rule length_format)
  then have l: "length (binary ?r) = length base"
    by (simp only: r entry_binary)
  have "format_0nb (length base) i ! j = ONE \<longleftrightarrow> bit i (length base - Suc j)"
    using n assms by (rule format_nth_bit)
  then have v: "binary ?r ! j = ONE \<longleftrightarrow> bit i (length base - Suc j)"
    by (simp only: r entry_binary)
  have s: "subset_list ?r = nths base {k. binary ?r ! k = ONE}"
    by (simp add: r entry_subset entry_binary)
  have q: "subseq (subset_list ?r) base"
    unfolding subseq_conv_nths using s by blast
  have m: "base ! j \<in> set (subset_list ?r) \<longleftrightarrow> binary ?r ! j = ONE" if "distinct base"
    using that assms(2) by (auto simp: s set_nths nth_eq_iff_index_eq)
  show ?thesis
    using l s q v m by blast
qed

theorem subset_matches_bits_witness:
  "(5::nat) < 2 ^ length [x1, x2, x3] \<and> (0::nat) < length [x1, x2, x3] \<and> distinct [x1, x2, x3]
   \<and> binary (update_power_set [x1, x2, x3] ! 5) ! 0 = ONE
   \<and> [x1, x2, x3] ! 0 \<in> set (subset_list (update_power_set [x1, x2, x3] ! 5))
   \<and> bit (5::nat) (length [x1, x2, x3] - Suc 0)
   \<and> length (binary (update_power_set [x1, x2, x3] ! 5)) = 3
   \<and> subseq (subset_list (update_power_set [x1, x2, x3] ! 5)) [x1, x2, x3]"
proof -
  have b: "binary (update_power_set [x1, x2, x3] ! 5) ! 0 = ONE"
    by (simp add: scenario_binary lit_def ONE_def)
  have i: "(5::nat) < 2 ^ length [x1, x2, x3]" and j: "(0::nat) < length [x1, x2, x3]"
    by simp_all
  note t = subset_matches_bits[OF i j]
  from t have "length (binary (update_power_set [x1, x2, x3] ! 5)) = length [x1, x2, x3]"
    and "subseq (subset_list (update_power_set [x1, x2, x3] ! 5)) [x1, x2, x3]"
    and "binary (update_power_set [x1, x2, x3] ! 5) ! 0 = ONE
           \<longleftrightarrow> bit (5::nat) (length [x1, x2, x3] - Suc 0)"
    and "distinct [x1, x2, x3] \<longrightarrow>
           ([x1, x2, x3] ! 0 \<in> set (subset_list (update_power_set [x1, x2, x3] ! 5))
              \<longleftrightarrow> binary (update_power_set [x1, x2, x3] ! 5) ! 0 = ONE)"
    by blast+
  then show ?thesis
    using i j b labels_distinct by simp
qed

text \<open>
  Claim C8. In record \<open>i\<close> the subset is empty exactly for \<open>i = 0\<close>, and then it is
  formatted as the empty-set symbol; for every other index it is formatted as an opening
  brace, its elements joined by a comma and a space, and a closing brace, the elements
  standing in base-set order. A base set of the single label \<open>a\<close> gives the two records
  \<open>([], \<emptyset>, "0", 0)\<close> and \<open>([a], "{a}", "1", 1)\<close>.
\<close>

theorem subset_formatting:
  assumes "i < 2 ^ length base"
  shows "(i = 0 \<longrightarrow> subset_list (update_power_set base ! i) = []
                \<and> subset_str (update_power_set base ! i) = EMPTY_SET)
       \<and> (i \<noteq> 0 \<longrightarrow> subset_list (update_power_set base ! i) \<noteq> []
                \<and> subset_str (update_power_set base ! i)
                    = lit ''{'' @ join (lit '', '') (subset_list (update_power_set base ! i))
                      @ lit ''}'')
       \<and> subseq (subset_list (update_power_set base ! i)) base
       \<and> update_power_set [a] =
            [\<lparr>subset_list = [], subset_str = EMPTY_SET, binary = lit ''0'', decimal = 0\<rparr>,
             \<lparr>subset_list = [a], subset_str = lit ''{'' @ a @ lit ''}'', binary = lit ''1'',
              decimal = 1\<rparr>]"
proof -
  let ?r = "update_power_set base ! i"
  have r: "?r = power_set_entry base (length base) i"
    using assms(1) by (rule update_power_set_nth)
  have e: "subset_list ?r = [] \<longleftrightarrow> i = 0"
    using assms by (simp add: r entry_subset_empty)
  have f: "subset_str ?r = (if subset_list ?r = [] then EMPTY_SET
      else lit ''{'' @ join (lit '', '') (subset_list ?r) @ lit ''}'')"
    unfolding r by (rule entry_subset_str)
  have q: "subseq (subset_list ?r) base"
    unfolding subseq_conv_nths r entry_subset by blast
  have u: "[0..<2] = [0, Suc 0]"
    by (simp add: upt_rec)
  have b: "format_0nb (Suc 0) 0 = [ZERO]" "format_0nb (Suc 0) (Suc 0) = [ONE]"
    by (simp_all add: format_0nb_def bin_digits_small digit_def)
  have l: "lit ''0'' = [ZERO]" "lit ''1'' = [ONE]"
    by (simp_all add: lit_def ZERO_def ONE_def)
  have one: "update_power_set [a] =
            [\<lparr>subset_list = [], subset_str = EMPTY_SET, binary = lit ''0'', decimal = 0\<rparr>,
             \<lparr>subset_list = [a], subset_str = lit ''{'' @ a @ lit ''}'', binary = lit ''1'',
              decimal = 1\<rparr>]"
    unfolding l using ZERO_neq_ONE by (simp add: update_power_set_map u power_set_entry_def b)
  show ?thesis
  proof (cases "i = 0")
    case True
    then show ?thesis using e f q one by auto
  next
    case False
    then show ?thesis using e f q one by auto
  qed
qed

theorem subset_formatting_witness:
  "(0::nat) < 2 ^ length [x1, x2, x3] \<and> (5::nat) < 2 ^ length [x1, x2, x3]
   \<and> subset_str (update_power_set [x1, x2, x3] ! 0) = EMPTY_SET
   \<and> subset_str (update_power_set [x1, x2, x3] ! 5) = lit ''{'' @ x1 @ lit '', '' @ x3 @ lit ''}''
   \<and> map subset_str (update_power_set [x1]) = [EMPTY_SET, lit ''{'' @ x1 @ lit ''}'']"
  using subset_formatting[of 0 "[x1, x2, x3]" x1] subset_formatting[of 5 "[x1, x2, x3]" x1]
  by (simp add: scenario_subset)

section \<open>The placement computer: proofs\<close>

lemma run_loop_eq:
  "run_loop A interrupted n is pps bps =
     (if \<exists>i \<in> set is. interrupted i then None
      else Some (pps @ map (\<lambda>i. fst (placement A n i)) is,
                 bps @ map (\<lambda>i. snd (placement A n i)) is))"
  by (induction "is" arbitrary: pps bps) simp_all

lemma run_eq:
  "run A interrupted w =
     (if \<exists>k \<le> 2 ^ length (base_set w). interrupted k then None
      else Some \<lparr>power_set_positions =
                    map (\<lambda>i. fst (placement A (length (base_set w)) i))
                      [0..<2 ^ length (base_set w)],
                  binary_positions =
                    map (\<lambda>i. snd (placement A (length (base_set w)) i))
                      [0..<2 ^ length (base_set w)],
                  n_sent = length (base_set w),
                  current_index_sent = current_index w,
                  show_labels_sent = show_labels w,
                  show_connections_sent = show_connections w\<rparr>)"
proof -
  let ?N = "2 ^ length (base_set w) :: nat"
  have "(\<exists>k \<le> ?N. interrupted k) \<longleftrightarrow> (\<exists>i \<in> set [0..<?N]. interrupted i) \<or> interrupted ?N"
    using le_eq_less_or_eq by auto
  then show ?thesis
    by (simp add: run_def Let_def run_loop_eq)
qed

lemma run_uninterrupted: "run A (\<lambda>k. False) w = Some (the (run A (\<lambda>k. False) w))"
  by (simp add: run_eq)

text \<open>
  For every arithmetic, an emitting run stores at each index \<open>i < 2 ^ n\<close> the two points
  that the loop body computes from \<open>n\<close> and \<open>i\<close>, and both lists have \<open>2 ^ n\<close> entries.
\<close>

lemma run_positions:
  assumes "run A interrupted w = Some e" and "i < 2 ^ length (base_set w)"
  shows "power_set_positions e ! i = fst (placement A (length (base_set w)) i)"
    and "binary_positions e ! i = snd (placement A (length (base_set w)) i)"
  using assms by (auto simp: run_eq split: if_splits)

lemma run_lengths:
  assumes "run A interrupted w = Some e"
  shows "length (power_set_positions e) = 2 ^ length (base_set w)"
    and "length (binary_positions e) = 2 ^ length (base_set w)"
    and "n_sent e = length (base_set w)"
  using assms by (auto simp: run_eq split: if_splits)

lemma on_circle:
  fixes s t :: real
  shows "(s * cos t)\<^sup>2 + (s * sin t)\<^sup>2 = s\<^sup>2"
proof -
  have "(s * cos t)\<^sup>2 + (s * sin t)\<^sup>2 = s\<^sup>2 * ((cos t)\<^sup>2 + (sin t)\<^sup>2)"
    by (simp only: power_mult_distrib distrib_left)
  then show ?thesis by simp
qed

lemma sin_60_squared: "(sin (pi / 3))\<^sup>2 = (3 / 4 :: real)"
  by (simp add: sin_60 power2_eq_square)

text \<open>
  Claim C7. The worker returns without emitting \<^verbatim>\<open>updated\<close> exactly when one of its
  calls of \<^verbatim>\<open>isInterruptionRequested()\<close>, the \<open>2 ^ n\<close> calls of the loop or the call
  before the emission, finds the flag set. A run has no third outcome: it emits the
  complete result or nothing, and it raises nothing.
\<close>

theorem cancelled_run_publishes_nothing:
  "run A interrupted w = None \<longleftrightarrow> (\<exists>k \<le> 2 ^ length (base_set w). interrupted k)"
proof
  assume "run A interrupted w = None"
  then show "\<exists>k \<le> 2 ^ length (base_set w). interrupted k"
    by (auto simp: run_eq split: if_splits)
next
  assume "\<exists>k \<le> 2 ^ length (base_set w). interrupted k"
  then show "run A interrupted w = None"
    by (simp add: run_eq)
qed

theorem cancelled_run_publishes_nothing_witness:
  "(3::nat) \<le> 2 ^ length (base_set \<lparr>base_set = [x1, x2, x3], current_index = 5,
                                     show_labels = True, show_connections = True\<rparr>)
   \<and> run exact (\<lambda>k. k = 3) \<lparr>base_set = [x1, x2, x3], current_index = 5,
                              show_labels = True, show_connections = True\<rparr> = None
   \<and> run exact (\<lambda>k. k = 8) \<lparr>base_set = [x1, x2, x3], current_index = 5,
                              show_labels = True, show_connections = True\<rparr> = None
   \<and> run exact (\<lambda>k. False) \<lparr>base_set = [x1, x2, x3], current_index = 5,
                              show_labels = True, show_connections = True\<rparr> \<noteq> None"
  using
    cancelled_run_publishes_nothing[of exact "\<lambda>k. k = 3"
      "\<lparr>base_set = [x1, x2, x3], current_index = 5, show_labels = True, show_connections = True\<rparr>"]
    cancelled_run_publishes_nothing[of exact "\<lambda>k. k = 8"
      "\<lparr>base_set = [x1, x2, x3], current_index = 5, show_labels = True, show_connections = True\<rparr>"]
    cancelled_run_publishes_nothing[of exact "\<lambda>k. False"
      "\<lparr>base_set = [x1, x2, x3], current_index = 5, show_labels = True, show_connections = True\<rparr>"]
  by simp

text \<open>
  Claim C9. Two runs that emit, on base sets of the same size \<open>n\<close>, emit the same
  power-set points and the same binary points, whatever the labels, the selected index,
  the display flags and the answers of the interruption checks were: the coordinates for
  \<open>(n, i)\<close> depend on \<open>n\<close> and \<open>i\<close> alone. This holds for every arithmetic, the rounded one
  included, and with equality, so within every tolerance.
\<close>

theorem placement_deterministic:
  assumes "length (base_set w1) = length (base_set w2)"
    and "run A interrupted1 w1 = Some e1"
    and "run A interrupted2 w2 = Some e2"
  shows "power_set_positions e1 = power_set_positions e2
       \<and> binary_positions e1 = binary_positions e2"
  using assms by (auto simp: run_eq split: if_splits)

theorem placement_deterministic_witness:
  "length (base_set \<lparr>base_set = [x1, x2, x3], current_index = 5,
                     show_labels = True, show_connections = True\<rparr>)
     = length (base_set \<lparr>base_set = [lit ''a'', lit ''b'', lit ''c''], current_index = 0,
                         show_labels = False, show_connections = False\<rparr>)
   \<and> run exact (\<lambda>k. False) \<lparr>base_set = [x1, x2, x3], current_index = 5,
                              show_labels = True, show_connections = True\<rparr> \<noteq> None
   \<and> run exact (\<lambda>k. False) \<lparr>base_set = [lit ''a'', lit ''b'', lit ''c''], current_index = 0,
                              show_labels = False, show_connections = False\<rparr> \<noteq> None
   \<and> power_set_positions (the (run exact (\<lambda>k. False)
         \<lparr>base_set = [x1, x2, x3], current_index = 5,
          show_labels = True, show_connections = True\<rparr>))
     = power_set_positions (the (run exact (\<lambda>k. False)
         \<lparr>base_set = [lit ''a'', lit ''b'', lit ''c''], current_index = 0,
          show_labels = False, show_connections = False\<rparr>))
   \<and> binary_positions (the (run exact (\<lambda>k. False)
         \<lparr>base_set = [x1, x2, x3], current_index = 5,
          show_labels = True, show_connections = True\<rparr>))
     = binary_positions (the (run exact (\<lambda>k. False)
         \<lparr>base_set = [lit ''a'', lit ''b'', lit ''c''], current_index = 0,
          show_labels = False, show_connections = False\<rparr>))"
proof -
  let ?wa = "\<lparr>base_set = [x1, x2, x3], current_index = 5,
              show_labels = True, show_connections = True\<rparr>"
  let ?wb = "\<lparr>base_set = [lit ''a'', lit ''b'', lit ''c''], current_index = 0,
              show_labels = False, show_connections = False\<rparr>"
  have l: "length (base_set ?wa) = length (base_set ?wb)"
    by simp
  have a: "run exact (\<lambda>k. False) ?wa = Some (the (run exact (\<lambda>k. False) ?wa))"
    by (rule run_uninterrupted)
  have b: "run exact (\<lambda>k. False) ?wb = Some (the (run exact (\<lambda>k. False) ?wb))"
    by (rule run_uninterrupted)
  from a b have "run exact (\<lambda>k. False) ?wa \<noteq> None" "run exact (\<lambda>k. False) ?wb \<noteq> None"
    by (metis option.distinct(1))+
  then show ?thesis
    using placement_deterministic[OF l a b] l by blast
qed



subsection \<open>Rounding\<close>

lemma cos_lipschitz: "\<bar>cos a - cos b\<bar> \<le> \<bar>a - b\<bar>" for a b :: real
proof -
  have "\<bar>cos a - cos b\<bar> = 2 * \<bar>sin ((a + b) / 2)\<bar> * \<bar>sin ((b - a) / 2)\<bar>"
    by (simp add: cos_diff_cos abs_mult)
  also have "\<dots> \<le> 2 * 1 * \<bar>(b - a) / 2\<bar>"
    by (intro mult_mono abs_sin_x_le_abs_x) simp_all
  finally show ?thesis by simp
qed

lemma sin_lipschitz: "\<bar>sin a - sin b\<bar> \<le> \<bar>a - b\<bar>" for a b :: real
proof -
  have "\<bar>sin a - sin b\<bar> = 2 * \<bar>sin ((a - b) / 2)\<bar> * \<bar>cos ((a + b) / 2)\<bar>"
    by (simp add: sin_diff_sin abs_mult)
  also have "\<dots> \<le> 2 * \<bar>(a - b) / 2\<bar> * 1"
    by (intro mult_mono abs_sin_x_le_abs_x) simp_all
  finally show ?thesis by simp
qed

lemma phi_close:
  assumes "rounds_within eps A"
  shows "\<bar>fdiv A (np_pi A) (float_of A 3) - pi / 3\<bar> \<le> 2 * eps"
proof -
  from assms have e: "0 \<le> eps" "eps \<le> 1" and p: "\<bar>np_pi A - pi\<bar> \<le> eps"
    and f: "float_of A 3 = 3"
    and d: "\<And>a b. \<bar>a\<bar> \<le> 8 \<Longrightarrow> 1 \<le> \<bar>b\<bar> \<Longrightarrow> \<bar>fdiv A a b - a / b\<bar> \<le> eps"
    by (simp_all add: rounds_within_def)
  have "\<bar>np_pi A\<bar> \<le> 8"
    using p e pi_less_4 pi_gt_zero by linarith
  then have "\<bar>fdiv A (np_pi A) 3 - np_pi A / 3\<bar> \<le> eps"
    by (intro d) simp_all
  then show ?thesis
    using p f by (simp add: abs_le_iff)
qed

lemma phi2_close:
  assumes "rounds_within eps A"
  shows "\<bar>fsub A (np_pi A) (fdiv A (np_pi A) (float_of A 3)) - (pi - pi / 3)\<bar> \<le> 4 * eps"
proof -
  let ?phi = "fdiv A (np_pi A) (float_of A 3)"
  from assms have e: "0 \<le> eps" "eps \<le> 1" and p: "\<bar>np_pi A - pi\<bar> \<le> eps"
    and m: "\<And>a b. \<bar>a\<bar> \<le> 8 \<Longrightarrow> \<bar>b\<bar> \<le> 8 \<Longrightarrow> \<bar>fsub A a b - (a - b)\<bar> \<le> eps"
    by (simp_all add: rounds_within_def)
  have q: "\<bar>?phi - pi / 3\<bar> \<le> 2 * eps"
    using assms by (rule phi_close)
  have "\<bar>np_pi A\<bar> \<le> 8" "\<bar>?phi\<bar> \<le> 8"
    using p q e pi_less_4 pi_gt_zero by linarith+
  then have "\<bar>fsub A (np_pi A) ?phi - (np_pi A - ?phi)\<bar> \<le> eps"
    by (rule m)
  then show ?thesis
    using p q by linarith
qed

lemma prod_close:
  fixes s c S C :: real
  assumes "\<bar>s - S\<bar> \<le> a" and "\<bar>c - C\<bar> \<le> b" and "\<bar>S\<bar> \<le> 1" and "\<bar>c\<bar> \<le> 2"
  shows "\<bar>s * c - S * C\<bar> \<le> 2 * a + b"
proof -
  have "s * c - S * C = (s - S) * c + S * (c - C)"
    by (simp add: algebra_simps)
  then have "\<bar>s * c - S * C\<bar> \<le> \<bar>s - S\<bar> * \<bar>c\<bar> + \<bar>S\<bar> * \<bar>c - C\<bar>"
    by (metis abs_mult abs_triangle_ineq)
  also have "\<bar>s - S\<bar> * \<bar>c\<bar> \<le> a * 2"
    using assms by (intro mult_mono) (simp_all add: order_trans[OF abs_ge_zero])
  also have "\<bar>S\<bar> * \<bar>c - C\<bar> \<le> 1 * b"
    using assms by (intro mult_mono) (simp_all add: order_trans[OF abs_ge_zero])
  finally show ?thesis by simp
qed

lemma square_close:
  fixes u v :: real
  assumes "\<bar>u - v\<bar> \<le> d" and "\<bar>v\<bar> \<le> 1" and "d \<le> k"
  shows "\<bar>u\<^sup>2 - v\<^sup>2\<bar> \<le> d * (k + 2)"
proof -
  have d0: "0 \<le> d" using assms(1) by linarith
  have "u\<^sup>2 - v\<^sup>2 = (u - v) * (u + v)"
    by (simp add: power2_eq_square algebra_simps)
  then have "\<bar>u\<^sup>2 - v\<^sup>2\<bar> = \<bar>u - v\<bar> * \<bar>u + v\<bar>"
    by (simp add: abs_mult)
  also have "\<dots> \<le> d * (k + 2)"
  proof (rule mult_mono)
    show "\<bar>u + v\<bar> \<le> k + 2" using assms by linarith
  qed (use assms d0 in simp_all)
  finally show ?thesis .
qed

text \<open>The coordinates of one placement, against the exact values at the azimuth the arithmetic computed.\<close>

lemma placement_close:
  assumes "rounds_within eps A"
  shows "\<exists>t. (case placement A n i of
               ((x, y, z), (xb, yb, zb)) \<Rightarrow>
                 \<bar>x - sin (pi / 3) * cos t\<bar> \<le> 8 * eps \<and> \<bar>y - sin (pi / 3) * sin t\<bar> \<le> 8 * eps
               \<and> \<bar>z - 1 / 2\<bar> \<le> 3 * eps
               \<and> \<bar>xb - sin (pi / 3) * cos t\<bar> \<le> 12 * eps \<and> \<bar>yb - sin (pi / 3) * sin t\<bar> \<le> 12 * eps
               \<and> \<bar>zb + 1 / 2\<bar> \<le> 5 * eps)"
proof -
  let ?t = "fmul A (fmul A (int_truediv A (int i) (2 ^ n)) (float_of A 2)) (np_pi A)"
  let ?phi = "fdiv A (np_pi A) (float_of A 3)"
  let ?phi2 = "fsub A (np_pi A) ?phi"
  let ?S = "sin (pi / 3) :: real"
  from assms have e: "0 \<le> eps" "eps \<le> 1"
    and sn: "\<And>x. \<bar>np_sin A x - sin x\<bar> \<le> eps"
    and cs: "\<And>x. \<bar>np_cos A x - cos x\<bar> \<le> eps"
    and ml: "\<And>a b. \<bar>a\<bar> \<le> 8 \<Longrightarrow> \<bar>b\<bar> \<le> 8 \<Longrightarrow> \<bar>fmul A a b - a * b\<bar> \<le> eps"
    by (simp_all add: rounds_within_def)
  have p1: "\<bar>?phi - pi / 3\<bar> \<le> 2 * eps"
    using assms by (rule phi_close)
  have p2: "\<bar>?phi2 - (pi - pi / 3)\<bar> \<le> 4 * eps"
    using assms by (rule phi2_close)
  have S1: "\<bar>?S\<bar> \<le> 1" by simp
  have s1: "\<bar>np_sin A ?phi - ?S\<bar> \<le> 3 * eps"
    using sn[of ?phi] sin_lipschitz[of ?phi "pi / 3"] p1 by linarith
  have "sin (pi - pi / 3) = ?S" by (rule sin_pi_minus)
  then have s2: "\<bar>np_sin A ?phi2 - ?S\<bar> \<le> 5 * eps"
    using sn[of ?phi2] sin_lipschitz[of ?phi2 "pi - pi / 3"] p2 by linarith
  have z: "\<bar>np_cos A ?phi - 1 / 2\<bar> \<le> 3 * eps"
    using cs[of ?phi] cos_lipschitz[of ?phi "pi / 3"] p1 by (simp add: cos_60)
  have "cos (pi - pi / 3) = - (1 / 2 :: real)"
    using cos_pi_minus[of "pi / 3"] by (simp only: cos_60)
  then have zb: "\<bar>np_cos A ?phi2 + 1 / 2\<bar> \<le> 5 * eps"
    using cs[of ?phi2] cos_lipschitz[of ?phi2 "pi - pi / 3"] p2 by linarith
  have c: "\<bar>np_cos A ?t - cos ?t\<bar> \<le> eps" and d: "\<bar>np_sin A ?t - sin ?t\<bar> \<le> eps"
    by (rule cs, rule sn)
  have c2: "\<bar>np_cos A ?t\<bar> \<le> 2" and d2: "\<bar>np_sin A ?t\<bar> \<le> 2"
    using c d e abs_cos_le_one[of ?t] abs_sin_le_one[of ?t] by linarith+
  have a1: "\<bar>np_sin A ?phi\<bar> \<le> 8" and a2: "\<bar>np_sin A ?phi2\<bar> \<le> 8"
    using s1 s2 S1 e by linarith+
  have c8: "\<bar>np_cos A ?t\<bar> \<le> 8" and d8: "\<bar>np_sin A ?t\<bar> \<le> 8"
    using c2 d2 by linarith+
  have x: "\<bar>fmul A (np_sin A ?phi) (np_cos A ?t) - ?S * cos ?t\<bar> \<le> 8 * eps"
    using ml[OF a1 c8] prod_close[OF s1 c S1 c2] by linarith
  have y: "\<bar>fmul A (np_sin A ?phi) (np_sin A ?t) - ?S * sin ?t\<bar> \<le> 8 * eps"
    using ml[OF a1 d8] prod_close[OF s1 d S1 d2] by linarith
  have xb: "\<bar>fmul A (np_sin A ?phi2) (np_cos A ?t) - ?S * cos ?t\<bar> \<le> 12 * eps"
    using ml[OF a2 c8] prod_close[OF s2 c S1 c2] by linarith
  have yb: "\<bar>fmul A (np_sin A ?phi2) (np_sin A ?t) - ?S * sin ?t\<bar> \<le> 12 * eps"
    using ml[OF a2 d8] prod_close[OF s2 d S1 d2] by linarith
  show ?thesis
    unfolding placement_def Let_def prod.case
    using x y z xb yb zb by blast
qed

lemma arctan_partial_sums:
  fixes x :: real
  assumes "0 \<le> x" and "x \<le> 1"
  shows "(\<Sum>i<2 * n. (- 1) ^ i * (1 / real (i * 2 + 1) * x ^ (i * 2 + 1))) \<le> arctan x"
    and "arctan x \<le> (\<Sum>i<2 * n + 1. (- 1) ^ i * (1 / real (i * 2 + 1) * x ^ (i * 2 + 1)))"
proof -
  let ?a = "\<lambda>k. 1 / real (k * 2 + 1) * x ^ (k * 2 + 1)"
  have ax: "\<bar>x\<bar> \<le> 1" using assms by simp
  have z: "?a \<longlonglongrightarrow> 0" using ax by (rule zeroseq_arctan_series)
  have p: "0 \<le> ?a k" for k using assms by simp
  have m: "?a (Suc k) \<le> ?a k" for k
  proof -
    have "x ^ (Suc k * 2 + 1) \<le> x ^ (k * 2 + 1)"
      using assms by (intro power_decreasing) simp_all
    moreover have "1 / real (Suc k * 2 + 1) \<le> 1 / real (k * 2 + 1)"
      by (simp add: field_simps)
    ultimately show ?thesis
      using assms by (intro mult_mono) simp_all
  qed
  have s: "arctan x = (\<Sum>k. (- 1) ^ k * ?a k)"
    using ax by (rule arctan_series)
  show "(\<Sum>i<2 * n. (- 1) ^ i * ?a i) \<le> arctan x"
    unfolding s using z p m by (rule summable_Leibniz'(2))
  show "arctan x \<le> (\<Sum>i<2 * n + 1. (- 1) ^ i * ?a i)"
    unfolding s using z p m by (rule summable_Leibniz'(4))
qed

lemma float64_pi_less_pi: "float64_pi < pi"
proof -
  have l: "(\<Sum>i<2 * 6. (- 1) ^ i * (1 / real (i * 2 + 1) * (1 / 5) ^ (i * 2 + 1))) \<le> arctan (1 / 5)"
    by (rule arctan_partial_sums(1)) simp_all
  have u: "arctan (1 / 239) \<le> (\<Sum>i<2 * 2 + 1. (- 1) ^ i * (1 / real (i * 2 + 1) * (1 / 239) ^ (i * 2 + 1)))"
    by (rule arctan_partial_sums(2)) simp_all
  have "(884279719003555 / 281474976710656 :: real) / 4 <
        4 * (\<Sum>i<2 * 6. (- 1) ^ i * (1 / real (i * 2 + 1) * (1 / 5) ^ (i * 2 + 1)))
        - (\<Sum>i<2 * 2 + 1. (- 1) ^ i * (1 / real (i * 2 + 1) * (1 / 239) ^ (i * 2 + 1)))"
    by (simp add: lessThan_nat_numeral lessThan_Suc power_divide)
  also have "\<dots> \<le> 4 * arctan (1 / 5) - arctan (1 / 239)"
    using l u by linarith
  also have "\<dots> = pi / 4"
    by (rule machin[symmetric])
  finally show ?thesis
    by (simp add: float64_pi_def)
qed

lemma pi_less_float64_pi_plus: "pi \<le> float64_pi + 1 / 2 ^ 52"
proof -
  have u: "arctan (1 / 5) \<le> (\<Sum>i<2 * 6 + 1. (- 1) ^ i * (1 / real (i * 2 + 1) * (1 / 5) ^ (i * 2 + 1)))"
    by (rule arctan_partial_sums(2)) simp_all
  have l: "(\<Sum>i<2 * 2. (- 1) ^ i * (1 / real (i * 2 + 1) * (1 / 239) ^ (i * 2 + 1))) \<le> arctan (1 / 239)"
    by (rule arctan_partial_sums(1)) simp_all
  have "pi / 4 = 4 * arctan (1 / 5) - arctan (1 / 239)"
    by (rule machin)
  also have "\<dots> \<le> 4 * (\<Sum>i<2 * 6 + 1. (- 1) ^ i * (1 / real (i * 2 + 1) * (1 / 5) ^ (i * 2 + 1)))
        - (\<Sum>i<2 * 2. (- 1) ^ i * (1 / real (i * 2 + 1) * (1 / 239) ^ (i * 2 + 1)))"
    using l u by linarith
  also have "\<dots> \<le> (884279719003555 / 281474976710656 + 1 / 2 ^ 52) / 4"
    by (simp add: lessThan_nat_numeral lessThan_Suc power_divide)
  finally show ?thesis
    by (simp add: float64_pi_def)
qed

lemma round_to_grid:
  fixes v g :: real
  assumes "0 < g"
  shows "\<bar>real_of_int (round (v * g)) / g - v\<bar> \<le> 1 / (2 * g)"
proof -
  have "real_of_int (round (v * g)) / g - v = (real_of_int (round (v * g)) - v * g) / g"
    using assms by (simp add: field_simps)
  then have "\<bar>real_of_int (round (v * g)) / g - v\<bar> = \<bar>real_of_int (round (v * g)) - v * g\<bar> / g"
    using assms by simp
  also have "\<dots> \<le> (1 / 2) / g"
    using assms by (intro divide_right_mono of_int_round_abs_le) simp
  finally show ?thesis by simp
qed

lemma rnd_close: "\<bar>rnd v - v\<bar> \<le> 1 / 2 ^ 53"
  using round_to_grid[of "2 ^ 52" v] by (simp add: rnd_def)

lemma rnd_3: "rnd 3 = 3"
  by (simp add: rnd_def)

lemma rounded_rounds: "rounds_within (1 / 2 ^ 53) rounded"
  using rnd_close by (simp add: rounds_within_def rounded_def rnd_3)

lemma float64_pi_rounds: "rounds_within (1 / 2 ^ 52) exact_with_float64_pi"
proof -
  have "\<bar>float64_pi - pi\<bar> \<le> 1 / 2 ^ 52"
    using float64_pi_less_pi pi_less_float64_pi_plus by linarith
  then show ?thesis
    unfolding rounds_within_def exact_with_float64_pi_def exact_def by simp
qed

lemma run_close:
  assumes "rounds_within eps A" and "run A interrupted w = Some e"
    and "i < 2 ^ length (base_set w)"
  shows "\<exists>t. (case (power_set_positions e ! i, binary_positions e ! i) of
               ((x, y, z), (xb, yb, zb)) \<Rightarrow>
                 \<bar>x - sin (pi / 3) * cos t\<bar> \<le> 8 * eps \<and> \<bar>y - sin (pi / 3) * sin t\<bar> \<le> 8 * eps
               \<and> \<bar>z - 1 / 2\<bar> \<le> 3 * eps
               \<and> \<bar>xb - sin (pi / 3) * cos t\<bar> \<le> 12 * eps \<and> \<bar>yb - sin (pi / 3) * sin t\<bar> \<le> 12 * eps
               \<and> \<bar>zb + 1 / 2\<bar> \<le> 5 * eps)"
proof -
  have "(power_set_positions e ! i, binary_positions e ! i) = placement A (length (base_set w)) i"
    using run_positions[OF assms(2,3)] by simp
  then show ?thesis
    using placement_close[OF assms(1), of "length (base_set w)" i] by simp
qed

lemma near_sphere:
  fixes x y z S t eps a k :: real
  assumes "\<bar>x - S * cos t\<bar> \<le> a * eps" and "\<bar>y - S * sin t\<bar> \<le> a * eps"
    and "S\<^sup>2 = 3 / 4" and "\<bar>S\<bar> \<le> 1" and "0 \<le> eps" and "eps \<le> 1" and "0 \<le> a"
  shows "\<bar>x\<^sup>2 + y\<^sup>2 - 3 / 4\<bar> \<le> 2 * (a * (a + 2)) * eps"
proof -
  have ae: "a * eps \<le> a" using assms by (simp add: mult_left_le)
  have c: "\<bar>S * cos t\<bar> \<le> 1" and s: "\<bar>S * sin t\<bar> \<le> 1"
    using assms(4) by (simp_all add: abs_mult mult_le_one)
  have x: "\<bar>x\<^sup>2 - (S * cos t)\<^sup>2\<bar> \<le> a * eps * (a + 2)"
    using assms(1) c ae by (rule square_close)
  have y: "\<bar>y\<^sup>2 - (S * sin t)\<^sup>2\<bar> \<le> a * eps * (a + 2)"
    using assms(2) s ae by (rule square_close)
  have "(S * cos t)\<^sup>2 + (S * sin t)\<^sup>2 = S\<^sup>2"
    by (rule on_circle)
  then have "\<bar>x\<^sup>2 + y\<^sup>2 - 3 / 4\<bar> \<le> a * eps * (a + 2) + a * eps * (a + 2)"
    using x y assms(3) by linarith
  then show ?thesis by (simp add: algebra_simps)
qed

lemma near_half_squared:
  fixes z v eps a :: real
  assumes "\<bar>z - v\<bar> \<le> a * eps" and "v\<^sup>2 = 1 / 4" and "\<bar>v\<bar> \<le> 1"
    and "0 \<le> eps" and "eps \<le> 1" and "0 \<le> a"
  shows "\<bar>z\<^sup>2 - 1 / 4\<bar> \<le> a * (a + 2) * eps"
proof -
  have ae: "a * eps \<le> a" using assms by (simp add: mult_left_le)
  have "\<bar>z\<^sup>2 - v\<^sup>2\<bar> \<le> a * eps * (a + 2)"
    using assms(1,3) ae by (rule square_close)
  then show ?thesis using assms(2) by (simp add: algebra_simps)
qed

text \<open>
  Claim C5. Let every operation of the arithmetic be within \<open>\<epsilon>\<close> of the exact one. Then
  every power-set point of an emitting run has the \<open>z\<close> that the arithmetic computes for
  \<open>cos (\<pi> / 3)\<close>, the same at every index and for every size, within \<open>3 \<epsilon>\<close> of \<open>1 / 2\<close>, and
  \<open>x\<^sup>2 + y\<^sup>2\<close> within \<open>160 \<epsilon>\<close> of \<open>sin\<^sup>2 (\<pi> / 3) = 3 / 4\<close>, so it lies on the unit sphere
  within \<open>175 \<epsilon>\<close>; every binary point has the \<open>z\<close> computed for \<open>cos (\<pi> - \<pi> / 3)\<close>, within
  \<open>5 \<epsilon>\<close> of \<open>- 1 / 2\<close>, and lies on the unit sphere within \<open>371 \<epsilon>\<close>. The values are not
  \<open>1 / 2\<close>, \<open>3 / 4\<close> and \<open>- 1 / 2\<close> themselves: the claim's approximations are these bounds.
\<close>

theorem points_near_fixed_polar_angles:
  assumes "rounds_within eps A" and "run A interrupted w = Some e"
    and "i < 2 ^ length (base_set w)"
  shows "(case power_set_positions e ! i of
            (x, y, z) \<Rightarrow> z = np_cos A (fdiv A (np_pi A) (float_of A 3))
                       \<and> \<bar>z - cos (pi / 3)\<bar> \<le> 3 * eps \<and> \<bar>z - 1 / 2\<bar> \<le> 3 * eps
                       \<and> \<bar>x\<^sup>2 + y\<^sup>2 - (sin (pi / 3))\<^sup>2\<bar> \<le> 160 * eps
                       \<and> \<bar>x\<^sup>2 + y\<^sup>2 - 3 / 4\<bar> \<le> 160 * eps
                       \<and> \<bar>x\<^sup>2 + y\<^sup>2 + z\<^sup>2 - 1\<bar> \<le> 175 * eps)
       \<and> (case binary_positions e ! i of
            (xb, yb, zb) \<Rightarrow> zb = np_cos A (fsub A (np_pi A) (fdiv A (np_pi A) (float_of A 3)))
                       \<and> \<bar>zb - cos (pi - pi / 3)\<bar> \<le> 5 * eps \<and> \<bar>zb + 1 / 2\<bar> \<le> 5 * eps
                       \<and> \<bar>xb\<^sup>2 + yb\<^sup>2 + zb\<^sup>2 - 1\<bar> \<le> 371 * eps)"
proof -
  obtain x y z where p: "power_set_positions e ! i = (x, y, z)"
    by (cases "power_set_positions e ! i") auto
  obtain xb yb zb where b: "binary_positions e ! i = (xb, yb, zb)"
    by (cases "binary_positions e ! i") auto
  from assms(1) have e: "0 \<le> eps" "eps \<le> 1"
    by (simp_all add: rounds_within_def)
  have S: "(sin (pi / 3))\<^sup>2 = (3 / 4 :: real)" "\<bar>sin (pi / 3 :: real)\<bar> \<le> 1"
    by (simp_all add: sin_60_squared)
  have ch: "cos (pi / 3) = (1 / 2 :: real)"
    by (rule cos_60)
  have cm: "cos (pi - pi / 3) = - (1 / 2 :: real)"
    using cos_pi_minus[of "pi / 3"] by (simp only: cos_60)
  from run_close[OF assms] obtain t where
    x: "\<bar>x - sin (pi / 3) * cos t\<bar> \<le> 8 * eps" and y: "\<bar>y - sin (pi / 3) * sin t\<bar> \<le> 8 * eps"
    and z: "\<bar>z - 1 / 2\<bar> \<le> 3 * eps"
    and xb: "\<bar>xb - sin (pi / 3) * cos t\<bar> \<le> 12 * eps"
    and yb: "\<bar>yb - sin (pi / 3) * sin t\<bar> \<le> 12 * eps"
    and zb: "\<bar>zb + 1 / 2\<bar> \<le> 5 * eps"
    unfolding p b by auto
  have zc: "z = np_cos A (fdiv A (np_pi A) (float_of A 3))"
    and zbc: "zb = np_cos A (fsub A (np_pi A) (fdiv A (np_pi A) (float_of A 3)))"
    using run_positions[OF assms(2,3)] unfolding p b by (simp_all add: placement_def Let_def)
  have c1: "\<bar>x\<^sup>2 + y\<^sup>2 - 3 / 4\<bar> \<le> 160 * eps"
    using near_sphere[OF x y S e] by simp
  have c2: "\<bar>xb\<^sup>2 + yb\<^sup>2 - 3 / 4\<bar> \<le> 336 * eps"
    using near_sphere[OF xb yb S e] by simp
  have z2: "\<bar>z\<^sup>2 - 1 / 4\<bar> \<le> 15 * eps"
    using near_half_squared[of z "1 / 2" 3 eps] z e by (simp add: power2_eq_square)
  have "\<bar>zb - (- (1 / 2))\<bar> \<le> 5 * eps" using zb by simp
  then have zb2: "\<bar>zb\<^sup>2 - 1 / 4\<bar> \<le> 35 * eps"
    using near_half_squared[of zb "- (1 / 2)" 5 eps] e by (simp add: power2_eq_square)
  have s1: "\<bar>x\<^sup>2 + y\<^sup>2 + z\<^sup>2 - 1\<bar> \<le> 175 * eps"
    using c1 z2 by linarith
  have s2: "\<bar>xb\<^sup>2 + yb\<^sup>2 + zb\<^sup>2 - 1\<bar> \<le> 371 * eps"
    using c2 zb2 by linarith
  show ?thesis
    unfolding p b prod.case S(1) ch cm
    using zc zbc z zb c1 s1 s2 by simp
qed

theorem points_near_fixed_polar_angles_witness:
  "rounds_within (1 / 2 ^ 53) rounded
   \<and> run rounded (\<lambda>k. False) \<lparr>base_set = [x1, x2, x3], current_index = 5,
                              show_labels = True, show_connections = True\<rparr> \<noteq> None
   \<and> (5::nat) < 2 ^ length (base_set \<lparr>base_set = [x1, x2, x3], current_index = 5,
                                       show_labels = True, show_connections = True\<rparr>)
   \<and> \<bar>snd (snd (power_set_positions (the (run rounded (\<lambda>k. False)
         \<lparr>base_set = [x1, x2, x3], current_index = 5,
          show_labels = True, show_connections = True\<rparr>)) ! 5)) - 1 / 2\<bar> \<le> 3 * (1 / 2 ^ 53)
   \<and> \<bar>snd (snd (binary_positions (the (run rounded (\<lambda>k. False)
         \<lparr>base_set = [x1, x2, x3], current_index = 5,
          show_labels = True, show_connections = True\<rparr>)) ! 5)) + 1 / 2\<bar> \<le> 5 * (1 / 2 ^ 53)
   \<and> 371 * (1 / 2 ^ 53) \<le> (1 / 10 ^ 9 :: real)"
proof -
  let ?w = "\<lparr>base_set = [x1, x2, x3], current_index = 5,
             show_labels = True, show_connections = True\<rparr>"
  have r: "run rounded (\<lambda>k. False) ?w = Some (the (run rounded (\<lambda>k. False) ?w))"
    by (rule run_uninterrupted)
  then have n: "run rounded (\<lambda>k. False) ?w \<noteq> None"
    by (metis option.distinct(1))
  have i: "(5::nat) < 2 ^ length (base_set ?w)"
    by simp
  have t: "371 * (1 / 2 ^ 53) \<le> (1 / 10 ^ 9 :: real)"
    by simp
  show ?thesis
    using points_near_fixed_polar_angles[OF rounded_rounds r i] rounded_rounds n i t
    by (auto split: prod.splits)
qed

lemma off_by_rounded_pi:
  fixes p :: real
  assumes "0 < p" and "p < pi"
  shows "sin (p - p / 3) \<noteq> sin (p / 3)" and "cos (p - p / 3) \<noteq> - cos (p / 3)"
proof -
  have h: "0 < cos (p / 2)" and s: "0 < cos (p / 6)" and u: "0 < sin (p / 6)"
    using assms by (auto intro!: cos_gt_zero sin_gt_zero)
  have "sin (p - p / 3) - sin (p / 3) = 2 * sin (p / 6) * cos (p / 2)"
    by (simp add: sin_diff_sin)
  then show "sin (p - p / 3) \<noteq> sin (p / 3)"
    using h u by (metis diff_self mult_eq_0_iff less_irrefl zero_neq_numeral)
  have "cos (p - p / 3) + cos (p / 3) = 2 * cos (p / 2) * cos (p / 6)"
    by (simp add: cos_plus_cos)
  then show "cos (p - p / 3) \<noteq> - cos (p / 3)"
    using h s by (metis add.right_inverse add.commute mult_eq_0_iff less_irrefl zero_neq_numeral)
qed

lemma float64_pi_pos: "0 < float64_pi"
  by (simp add: float64_pi_def)

text \<open>
  With \<^verbatim>\<open>np.pi\<close> the \<^verbatim>\<open>float64\<close> constant, which is below \<open>\<pi>\<close>, and every operation exact,
  the two points of index 0 differ in \<open>x\<close>, and the \<open>z\<close> of the binary point is not the
  opposite of the \<open>z\<close> of the power-set point: \<open>sin (p - p / 3) = sin (p / 3)\<close> and
  \<open>cos (p - p / 3) = - cos (p / 3)\<close> hold at \<open>p = \<pi>\<close> and at no other \<open>p\<close> between 0 and \<open>\<pi>\<close>.
  The reflection that claim C10 states with equality does not survive the rounding of
  \<^verbatim>\<open>np.pi\<close> alone.
\<close>

theorem reflection_fails_with_float64_pi:
  "run exact_with_float64_pi (\<lambda>k. False) \<lparr>base_set = [x1, x2, x3], current_index = 5,
                              show_labels = True, show_connections = True\<rparr> \<noteq> None
   \<and> fst (binary_positions (the (run exact_with_float64_pi (\<lambda>k. False)
         \<lparr>base_set = [x1, x2, x3], current_index = 5,
          show_labels = True, show_connections = True\<rparr>)) ! 0)
     \<noteq> fst (power_set_positions (the (run exact_with_float64_pi (\<lambda>k. False)
         \<lparr>base_set = [x1, x2, x3], current_index = 5,
          show_labels = True, show_connections = True\<rparr>)) ! 0)
   \<and> snd (snd (binary_positions (the (run exact_with_float64_pi (\<lambda>k. False)
         \<lparr>base_set = [x1, x2, x3], current_index = 5,
          show_labels = True, show_connections = True\<rparr>)) ! 0))
     \<noteq> - snd (snd (power_set_positions (the (run exact_with_float64_pi (\<lambda>k. False)
         \<lparr>base_set = [x1, x2, x3], current_index = 5,
          show_labels = True, show_connections = True\<rparr>)) ! 0))"
proof -
  let ?w = "\<lparr>base_set = [x1, x2, x3], current_index = 5,
             show_labels = True, show_connections = True\<rparr>"
  let ?e = "the (run exact_with_float64_pi (\<lambda>k. False) ?w)"
  have r: "run exact_with_float64_pi (\<lambda>k. False) ?w = Some ?e"
    by (rule run_uninterrupted)
  then have n: "run exact_with_float64_pi (\<lambda>k. False) ?w \<noteq> None"
    by (metis option.distinct(1))
  have i: "(0::nat) < 2 ^ length (base_set ?w)"
    by simp
  have pl: "placement exact_with_float64_pi n 0 =
             ((sin (float64_pi / 3), 0, cos (float64_pi / 3)),
              (sin (float64_pi - float64_pi / 3), 0, cos (float64_pi - float64_pi / 3)))" for n
    unfolding placement_def exact_with_float64_pi_def exact_def Let_def
    by (simp del: diff_divide_eq_iff)
  have pp: "power_set_positions ?e ! 0 = (sin (float64_pi / 3), 0, cos (float64_pi / 3))"
    using run_positions(1)[OF r i] by (simp only: pl fst_conv)
  have bp: "binary_positions ?e ! 0 =
              (sin (float64_pi - float64_pi / 3), 0, cos (float64_pi - float64_pi / 3))"
    using run_positions(2)[OF r i] by (simp only: pl snd_conv)
  show ?thesis
    unfolding pp bp fst_conv snd_conv
    using n off_by_rounded_pi[OF float64_pi_pos float64_pi_less_pi] by blast
qed

text \<open>
  Claim C10, amended. Let every operation of the arithmetic be within \<open>\<epsilon>\<close> of the exact
  one. Then at every index \<open>i < 2 ^ n\<close> the binary point of an emitting run is the
  reflection of the power-set point through the plane \<open>z = 0\<close> up to rounding: its \<open>x\<close>
  and \<open>y\<close> are within \<open>20 \<epsilon>\<close> of those of the power-set point, and its \<open>z\<close> is within
  \<open>8 \<epsilon>\<close> of the opposite \<open>z\<close>. For \<open>\<epsilon> = 0\<close>, exact arithmetic, these are the equalities of
  the claim.
\<close>

theorem reflection_up_to_rounding:
  assumes "rounds_within eps A" and "run A interrupted w = Some e"
    and "i < 2 ^ length (base_set w)"
  shows "(case (power_set_positions e ! i, binary_positions e ! i) of
            ((x, y, z), (xb, yb, zb)) \<Rightarrow>
              \<bar>xb - x\<bar> \<le> 20 * eps \<and> \<bar>yb - y\<bar> \<le> 20 * eps \<and> \<bar>zb + z\<bar> \<le> 8 * eps)"
proof -
  obtain x y z where p: "power_set_positions e ! i = (x, y, z)"
    by (cases "power_set_positions e ! i") auto
  obtain xb yb zb where b: "binary_positions e ! i = (xb, yb, zb)"
    by (cases "binary_positions e ! i") auto
  from run_close[OF assms] obtain t where
    "\<bar>x - sin (pi / 3) * cos t\<bar> \<le> 8 * eps" and "\<bar>y - sin (pi / 3) * sin t\<bar> \<le> 8 * eps"
    and "\<bar>z - 1 / 2\<bar> \<le> 3 * eps"
    and "\<bar>xb - sin (pi / 3) * cos t\<bar> \<le> 12 * eps"
    and "\<bar>yb - sin (pi / 3) * sin t\<bar> \<le> 12 * eps"
    and "\<bar>zb + 1 / 2\<bar> \<le> 5 * eps"
    unfolding p b by auto
  then have "\<bar>xb - x\<bar> \<le> 20 * eps" "\<bar>yb - y\<bar> \<le> 20 * eps" "\<bar>zb + z\<bar> \<le> 8 * eps"
    by linarith+
  then show ?thesis
    unfolding p b by simp
qed

theorem reflection_up_to_rounding_witness:
  "rounds_within (1 / 2 ^ 52) exact_with_float64_pi
   \<and> run exact_with_float64_pi (\<lambda>k. False) \<lparr>base_set = [x1, x2, x3], current_index = 5,
                              show_labels = True, show_connections = True\<rparr> \<noteq> None
   \<and> (0::nat) < 2 ^ length (base_set \<lparr>base_set = [x1, x2, x3], current_index = 5,
                                       show_labels = True, show_connections = True\<rparr>)
   \<and> \<bar>fst (binary_positions (the (run exact_with_float64_pi (\<lambda>k. False)
         \<lparr>base_set = [x1, x2, x3], current_index = 5,
          show_labels = True, show_connections = True\<rparr>)) ! 0)
       - fst (power_set_positions (the (run exact_with_float64_pi (\<lambda>k. False)
         \<lparr>base_set = [x1, x2, x3], current_index = 5,
          show_labels = True, show_connections = True\<rparr>)) ! 0)\<bar> \<le> 20 * (1 / 2 ^ 52)
   \<and> \<bar>snd (snd (binary_positions (the (run exact_with_float64_pi (\<lambda>k. False)
         \<lparr>base_set = [x1, x2, x3], current_index = 5,
          show_labels = True, show_connections = True\<rparr>)) ! 0))
       + snd (snd (power_set_positions (the (run exact_with_float64_pi (\<lambda>k. False)
         \<lparr>base_set = [x1, x2, x3], current_index = 5,
          show_labels = True, show_connections = True\<rparr>)) ! 0))\<bar> \<le> 8 * (1 / 2 ^ 52)"
proof -
  let ?w = "\<lparr>base_set = [x1, x2, x3], current_index = 5,
             show_labels = True, show_connections = True\<rparr>"
  have r: "run exact_with_float64_pi (\<lambda>k. False) ?w
             = Some (the (run exact_with_float64_pi (\<lambda>k. False) ?w))"
    by (rule run_uninterrupted)
  then have n: "run exact_with_float64_pi (\<lambda>k. False) ?w \<noteq> None"
    by (metis option.distinct(1))
  have i: "(0::nat) < 2 ^ length (base_set ?w)"
    by simp
  show ?thesis
    using reflection_up_to_rounding[OF float64_pi_rounds r i] float64_pi_rounds n i
    by (auto split: prod.splits)
qed

section \<open>Superseding a running computation: proofs\<close>

lemma int_base2_000: "int_base2 (lit ''000'') = Some 0"
  by (simp add: int_base2_def lit_def digit_val_def ZERO_def)

text \<open>
  Claim C6. The window of \<^verbatim>\<open>__init__\<close> starts its first computation with the labels
  shown; the worker is running. The user clears ``Show Labels'', which starts a second
  computation before the first worker has returned. \<^verbatim>\<open>quit()\<close> does not set the flag that
  the worker polls, so \<^verbatim>\<open>wait()\<close> returns only after the first worker has emitted its
  result, and the next delivery of the event loop draws that result, computed for shown
  labels, while the second worker is still running. Once the second worker has returned
  and its signal is delivered, the renderer has drawn both results, the superseded one
  first.
\<close>

theorem superseded_result_is_drawn:
  "map_sum id (\<lambda>s. map_option running (worker_thread s)) (steps exact [Refresh] init_window)
     = Inr (Some True)
   \<and> map_sum id (\<lambda>s. (map show_labels_sent (drawn s),
                       map_option (\<lambda>th. (running th, show_labels (args th))) (worker_thread s)))
        (steps exact [Refresh, Show_labels_toggled, Deliver] init_window)
     = Inr ([True], Some (True, False))
   \<and> map_sum id (\<lambda>s. map show_labels_sent (drawn s))
        (steps exact [Refresh, Show_labels_toggled, Deliver, Worker_returns, Deliver] init_window)
     = Inr [True, False]"
  by (simp add: update_3d_visualization_def init_window_def int_base2_000 Let_def
      qthread_wait_def qthread_quit_def finish_def run_eq draw_visualization_def)

end
